theory Spec2Isabelle
  imports Main "HOL-Library.AList"
begin

section \<open>Data model\<close>

text \<open>
  The answer schema of \<^verbatim>\<open>models/reflection.py\<close> and \<^verbatim>\<open>models/answer.py\<close>. The arguments of
  a tool call are the fields of \<^verbatim>\<open>AnswerQuestion\<close>; \<^verbatim>\<open>references\<close> is present when the tool
  is \<^verbatim>\<open>ReviseAnswer\<close>.
\<close>

record Reflection =
  missing :: string
  superfluous :: string

record tool_args =
  answer :: string
  reflection :: Reflection
  search_queries :: "string list"
  references :: "string list option"

text \<open>
  One parsed tool call, as \<^verbatim>\<open>JsonOutputToolsParser(return_id=True)\<close> yields it: the keys
  \<^verbatim>\<open>type\<close>, \<^verbatim>\<open>args\<close> and \<^verbatim>\<open>id\<close>.
\<close>

record tool_call =
  call_type :: string
  call_args :: tool_args
  call_id :: string

text \<open>
  The turns of the message history. The payload of a search is opaque (\<open>'r\<close>). The content of
  a \<^verbatim>\<open>ToolMessage\<close> is \<^verbatim>\<open>json.dumps\<close> of a dict from query string to payload; the model keeps
  the dict itself, as a list of pairs in insertion order, and leaves the serialisation out.
\<close>

datatype 'r message =
    HumanMessage (content: string)
  | AIMessage (tool_calls: "tool_call list")
  | ToolMessage (query_outputs: "(string \<times> 'r) list") (tool_call_id: string)

text \<open>The exceptions a run can end with.\<close>

datatype error =
    ValueError string
  | IndexError
  | AttributeError
  | TypeError
  | SyntaxError
  | CompletionError
  | SearchError
  | GraphRecursionError

section \<open>The transition function after REVISE (\<^verbatim>\<open>graph/builder.py\<close>)\<close>

text \<open>\<^verbatim>\<open>langgraph.graph.END\<close> is the string constant \<^verbatim>\<open>"__end__"\<close>.\<close>

definition END :: string where
  "END = ''__end__''"

fun isinstance_ToolMessage :: "'r message \<Rightarrow> bool" where
  "isinstance_ToolMessage (ToolMessage d i) = True"
| "isinstance_ToolMessage (HumanMessage c) = False"
| "isinstance_ToolMessage (AIMessage tcs) = False"

text \<open>
  \<^verbatim>\<open>sum(isinstance(item, ToolMessage) for item in state)\<close>: the booleans are summed as 0 and 1.
\<close>

definition count_tool_visits :: "'r message list \<Rightarrow> int" where
  "count_tool_visits state = sum_list (map (\<lambda>item. if isinstance_ToolMessage item then 1 else 0) state)"

definition event_loop :: "int \<Rightarrow> 'r message list \<Rightarrow> string" where
  "event_loop max_iterations state =
     (if count_tool_visits state > max_iterations then END else ''execute_tools'')"

section \<open>External services\<close>

text \<open>
  The completion service and the search service are outside the repository. Each is a
  function of the calls made so far in the run and of its input, so two calls with the same
  input may answer differently; every call is appended to the log. A chain of
  \<^verbatim>\<open>chains.py\<close> answers with an \<^verbatim>\<open>AIMessage\<close>, given here by its tool calls.
\<close>

datatype call = Completion | Search string

text \<open>
  What \<^verbatim>\<open>draft_node\<close> can be handed: a string, a list (of strings, messages or other
  objects), or an object of another type, given by the name of its type.
\<close>

datatype 'r item = Str string | Msg "'r message" | Obj string

datatype 'r state_arg = StateStr string | StateList "'r item list" | StateObj string

record 'r services =
  first_responder_invoke :: "call list \<Rightarrow> 'r item list \<Rightarrow> error + tool_call list"
  revisor_invoke :: "call list \<Rightarrow> 'r message list \<Rightarrow> error + tool_call list"
  tavily_invoke :: "call list \<Rightarrow> string \<Rightarrow> error + 'r"

definition first_responder ::
  "'r services \<Rightarrow> call list \<Rightarrow> 'r item list \<Rightarrow> (error + 'r message) \<times> call list" where
  "first_responder sv w messages =
     (case first_responder_invoke sv w messages of
        Inl e \<Rightarrow> (Inl e, w @ [Completion])
      | Inr tcs \<Rightarrow> (Inr (AIMessage tcs), w @ [Completion]))"

definition revisor ::
  "'r services \<Rightarrow> call list \<Rightarrow> 'r message list \<Rightarrow> (error + 'r message) \<times> call list" where
  "revisor sv w messages =
     (case revisor_invoke sv w messages of
        Inl e \<Rightarrow> (Inl e, w @ [Completion])
      | Inr tcs \<Rightarrow> (Inr (AIMessage tcs), w @ [Completion]))"

text \<open>\<^verbatim>\<open>SearchTool.execute\<close> of \<^verbatim>\<open>tools/search.py\<close>: one call of the search service.\<close>

definition SearchTool_execute ::
  "'r services \<Rightarrow> call list \<Rightarrow> string \<Rightarrow> (error + 'r) \<times> call list" where
  "SearchTool_execute sv w query = (tavily_invoke sv w query, w @ [Search query])"

section \<open>The nodes (\<^verbatim>\<open>graph/nodes.py\<close>)\<close>

subsection \<open>\<^verbatim>\<open>draft_node\<close>\<close>

text \<open>The \<^verbatim>\<open>if\<close>/\<^verbatim>\<open>elif\<close>/\<^verbatim>\<open>else\<close> block that computes \<^verbatim>\<open>messages\<close>.\<close>

definition draft_messages :: "'r state_arg \<Rightarrow> error + 'r item list" where
  "draft_messages state =
     (case state of
        StateStr s \<Rightarrow> Inr [Msg (HumanMessage s)]
      | StateList xs \<Rightarrow>
          (if xs = [] then Inl (ValueError ''Empty state received'')
           else (case last xs of
                   Str s \<Rightarrow> Inr [Msg (HumanMessage s)]
                 | Msg m \<Rightarrow> Inr xs
                 | Obj ty \<Rightarrow> Inr xs))
      | StateObj ty \<Rightarrow> Inl (ValueError (''Unexpected state type: '' @ ty)))"

definition draft_node ::
  "'r services \<Rightarrow> call list \<Rightarrow> 'r state_arg \<Rightarrow> (error + 'r message) \<times> call list" where
  "draft_node sv w state =
     (case draft_messages state of
        Inl e \<Rightarrow> (Inl e, w)
      | Inr messages \<Rightarrow> first_responder sv w messages)"

subsection \<open>\<^verbatim>\<open>execute_tools_node\<close>\<close>

record ToolInvocation =
  tool :: string
  tool_input :: string

text \<open>
  \<^verbatim>\<open>parser.invoke\<close>: the tool calls of the message, each with its id; a message that carries
  no tool calls parses to the empty list.
\<close>

fun parser_invoke :: "'r message \<Rightarrow> tool_call list" where
  "parser_invoke (AIMessage tcs) = tcs"
| "parser_invoke (HumanMessage c) = []"
| "parser_invoke (ToolMessage d i) = []"

text \<open>
  The nested \<^verbatim>\<open>for\<close> loops: every query of every parsed call appends one invocation to
  \<^verbatim>\<open>tool_invocations\<close> and the call's id to \<^verbatim>\<open>ids\<close>.
\<close>

definition append_query ::
  "tool_call \<Rightarrow> string \<Rightarrow> string list \<times> ToolInvocation list \<Rightarrow> string list \<times> ToolInvocation list" where
  "append_query parsed_call query acc =
     (case acc of (ids, tool_invocations) \<Rightarrow>
        (ids @ [call_id parsed_call],
         tool_invocations @ [\<lparr>tool = ''tavily_search_results_json'', tool_input = query\<rparr>]))"

definition append_queries ::
  "tool_call \<Rightarrow> string list \<times> ToolInvocation list \<Rightarrow> string list \<times> ToolInvocation list" where
  "append_queries parsed_call acc =
     fold (append_query parsed_call) (search_queries (call_args parsed_call)) acc"

definition collect_invocations :: "tool_call list \<Rightarrow> string list \<times> ToolInvocation list" where
  "collect_invocations parsed_tool_calls = fold append_queries parsed_tool_calls ([], [])"

text \<open>
  The list comprehension that calls the search tool once per invocation, in order. The
  first call that raises ends it: the exception leaves the comprehension.
\<close>

fun execute_all ::
  "'r services \<Rightarrow> call list \<Rightarrow> ToolInvocation list \<Rightarrow> (error + 'r list) \<times> call list" where
  "execute_all sv w [] = (Inr [], w)"
| "execute_all sv w (invocation # rest) =
     (case SearchTool_execute sv w (tool_input invocation) of
        (Inl e, w') \<Rightarrow> (Inl e, w')
      | (Inr output, w') \<Rightarrow>
          (case execute_all sv w' rest of
             (Inl e, w'') \<Rightarrow> (Inl e, w'')
           | (Inr outputs, w'') \<Rightarrow> (Inr (output # outputs), w'')))"

text \<open>
  \<^verbatim>\<open>outputs_map[id_][invocation.tool_input] = output\<close> on a \<^verbatim>\<open>defaultdict(dict)\<close>: a missing
  id is entered with an empty dict first; an assignment to a key that is present replaces
  its value and keeps its position (\<open>AList.update\<close>).
\<close>

definition outputs_map_set ::
  "string \<times> 'r \<times> ToolInvocation \<Rightarrow> (string \<times> (string \<times> 'r) list) list \<Rightarrow> (string \<times> (string \<times> 'r) list) list" where
  "outputs_map_set row outputs_map =
     (case row of (id', output, invocation) \<Rightarrow>
        AList.update id'
          (AList.update (tool_input invocation) output
             (case map_of outputs_map id' of None \<Rightarrow> [] | Some d \<Rightarrow> d))
          outputs_map)"

definition build_outputs_map ::
  "string list \<Rightarrow> 'r list \<Rightarrow> ToolInvocation list \<Rightarrow> (string \<times> (string \<times> 'r) list) list" where
  "build_outputs_map ids outputs tool_invocations =
     fold outputs_map_set (zip ids (zip outputs tool_invocations)) []"

definition execute_tools_node ::
  "'r services \<Rightarrow> call list \<Rightarrow> 'r message list \<Rightarrow> (error + 'r message list) \<times> call list" where
  "execute_tools_node sv w state =
     (if state = [] then (Inl IndexError, w)
      else
        (case collect_invocations (parser_invoke (last state)) of
           (ids, tool_invocations) \<Rightarrow>
             (case execute_all sv w tool_invocations of
                (Inl e, w') \<Rightarrow> (Inl e, w')
              | (Inr outputs, w') \<Rightarrow>
                  (Inr (map (\<lambda>(id', query_outputs). ToolMessage query_outputs id')
                          (build_outputs_map ids outputs tool_invocations)),
                   w'))))"

subsection \<open>\<^verbatim>\<open>revise_node\<close>\<close>

definition revise_node ::
  "'r services \<Rightarrow> call list \<Rightarrow> 'r message list \<Rightarrow> (error + 'r message) \<times> call list" where
  "revise_node sv w state = revisor sv w state"

section \<open>The graph (\<^verbatim>\<open>graph/builder.py\<close>)\<close>

text \<open>
  A node takes the history and returns the turns to append. The builder collects the nodes,
  the unconditional edges, the conditional edges (a function from the history to the name
  of the next node) and the entry point.
\<close>

type_synonym 'r node = "call list \<Rightarrow> 'r message list \<Rightarrow> (error + 'r message list) \<times> call list"

record 'r MessageGraph =
  nodes :: "(string \<times> 'r node) list"
  edges :: "(string \<times> string) list"
  branches :: "(string \<times> ('r message list \<Rightarrow> string)) list"
  entry_point :: "string option"

definition MessageGraph_init :: "'r MessageGraph" where
  "MessageGraph_init = \<lparr>nodes = [], edges = [], branches = [], entry_point = None\<rparr>"

definition add_node :: "string \<Rightarrow> 'r node \<Rightarrow> 'r MessageGraph \<Rightarrow> 'r MessageGraph" where
  "add_node name action builder = builder\<lparr>nodes := nodes builder @ [(name, action)]\<rparr>"

definition add_edge :: "string \<Rightarrow> string \<Rightarrow> 'r MessageGraph \<Rightarrow> 'r MessageGraph" where
  "add_edge start_key end_key builder = builder\<lparr>edges := edges builder @ [(start_key, end_key)]\<rparr>"

definition add_conditional_edges ::
  "string \<Rightarrow> ('r message list \<Rightarrow> string) \<Rightarrow> 'r MessageGraph \<Rightarrow> 'r MessageGraph" where
  "add_conditional_edges source path builder =
     builder\<lparr>branches := branches builder @ [(source, path)]\<rparr>"

definition set_entry_point :: "string \<Rightarrow> 'r MessageGraph \<Rightarrow> 'r MessageGraph" where
  "set_entry_point key builder = builder\<lparr>entry_point := Some key\<rparr>"

definition create_event_loop :: "int \<Rightarrow> 'r message list \<Rightarrow> string" where
  "create_event_loop max_iterations = event_loop max_iterations"

text \<open>
  The three nodes as the graph runs them. \<^verbatim>\<open>draft_node\<close> is handed the history as a list;
  the single \<^verbatim>\<open>AIMessage\<close> that \<^verbatim>\<open>draft_node\<close> and \<^verbatim>\<open>revise_node\<close> return is one turn to
  append.
\<close>

definition draft_action :: "'r services \<Rightarrow> 'r node" where
  "draft_action sv w state =
     (case draft_node sv w (StateList (map Msg state)) of
        (Inl e, w') \<Rightarrow> (Inl e, w')
      | (Inr m, w') \<Rightarrow> (Inr [m], w'))"

definition revise_action :: "'r services \<Rightarrow> 'r node" where
  "revise_action sv w state =
     (case revise_node sv w state of
        (Inl e, w') \<Rightarrow> (Inl e, w')
      | (Inr m, w') \<Rightarrow> (Inr [m], w'))"

definition create_graph :: "'r services \<Rightarrow> int \<Rightarrow> 'r MessageGraph" where
  "create_graph sv max_iterations =
     set_entry_point ''draft''
       (add_conditional_edges ''revise'' (create_event_loop max_iterations)
          (add_edge ''execute_tools'' ''revise''
             (add_edge ''draft'' ''execute_tools''
                (add_node ''revise'' (revise_action sv)
                   (add_node ''execute_tools'' (execute_tools_node sv)
                      (add_node ''draft'' (draft_action sv) MessageGraph_init))))))"

subsection \<open>Running the graph\<close>

text \<open>
  The graph library runs one node after the other: the node's turns are appended to the
  history, then the unconditional edge out of the node is followed or, when there is none,
  the conditional edge is asked; \<open>END\<close> stops the run and returns the history. The run is
  given a limit on the number of node executions (the library's recursion limit, 25 when
  none is given, as in \<^verbatim>\<open>cli.py\<close>) and ends with \<open>GraphRecursionError\<close> when the limit is used
  up. The library tests the limit before it finds the run finished: a run that comes to
  \<open>END\<close> with the node execution that uses up the limit raises as well, so a run of \<open>n\<close>
  node executions returns only under a limit greater than \<open>n\<close>. Besides the outcome and the
  call log, the run returns the names of the nodes it executed, in order.
\<close>

definition next_node :: "'r MessageGraph \<Rightarrow> string \<Rightarrow> 'r message list \<Rightarrow> string" where
  "next_node g node state =
     (case map_of (edges g) node of
        Some end_key \<Rightarrow> end_key
      | None \<Rightarrow> (case map_of (branches g) node of Some path \<Rightarrow> path state | None \<Rightarrow> END))"

fun run ::
  "nat \<Rightarrow> 'r MessageGraph \<Rightarrow> string \<Rightarrow> call list \<Rightarrow> 'r message list
     \<Rightarrow> (error + 'r message list) \<times> call list \<times> string list" where
  "run 0 g node w state = (Inl GraphRecursionError, w, [])"
| "run (Suc limit) g node w state =
     (case map_of (nodes g) node of
        None \<Rightarrow> (Inl (ValueError node), w, [])
      | Some action \<Rightarrow>
          (case action w state of
             (Inl e, w') \<Rightarrow> (Inl e, w', [node])
           | (Inr turns, w') \<Rightarrow>
               (if next_node g node (state @ turns) = END
                then (if limit = 0 then (Inl GraphRecursionError, w', [node])
                      else (Inr (state @ turns), w', [node]))
                else
                  (case run limit g (next_node g node (state @ turns)) w' (state @ turns) of
                     (res, w'', visited) \<Rightarrow> (res, w'', node # visited)))))"

definition invoke ::
  "nat \<Rightarrow> 'r MessageGraph \<Rightarrow> call list \<Rightarrow> 'r message list
     \<Rightarrow> (error + 'r message list) \<times> call list \<times> string list" where
  "invoke limit g w input =
     (case entry_point g of
        None \<Rightarrow> (Inl (ValueError ''entry point''), w, [])
      | Some key \<Rightarrow> run limit g key w input)"

section \<open>Settings (\<^verbatim>\<open>config/settings.py\<close>) and their update (\<^verbatim>\<open>cli.py\<close>)\<close>

record Settings =
  OPENAI_API_KEY :: string
  TAVILY_API_KEY :: string
  LANGCHAIN_API_KEY :: "string option"
  LANGCHAIN_TRACING_V2 :: "bool option"
  LANGCHAIN_PROJECT :: "string option"
  MAX_ITERATIONS :: int
  MODEL_NAME :: string
  MAX_RESULTS :: int

text \<open>
  \<^verbatim>\<open>update_settings\<close> assigns to the global \<^verbatim>\<open>settings\<close> object; here the object is passed
  in and returned. The three \<^verbatim>\<open>if ... is not None\<close> statements run one after the other.
\<close>

definition update_settings ::
  "int option \<Rightarrow> string option \<Rightarrow> int option \<Rightarrow> Settings \<Rightarrow> Settings" where
  "update_settings max_iterations model max_results settings =
     (let s1 = (case max_iterations of None \<Rightarrow> settings | Some v \<Rightarrow> settings\<lparr>MAX_ITERATIONS := v\<rparr>);
          s2 = (case model of None \<Rightarrow> s1 | Some v \<Rightarrow> s1\<lparr>MODEL_NAME := v\<rparr>);
          s3 = (case max_results of None \<Rightarrow> s2 | Some v \<Rightarrow> s2\<lparr>MAX_RESULTS := v\<rparr>)
      in s3)"

section \<open>Reference formatting (\<^verbatim>\<open>cli.py\<close>)\<close>

subsection \<open>Python values and built-ins\<close>

text \<open>
  The values \<^verbatim>\<open>ast.literal_eval\<close> can return. A set is given by its elements and a dict by
  its items, without repetition; \<open>PyObj\<close> stands for any other value (a float, bytes, a
  complex number, \<^verbatim>\<open>Ellipsis\<close>), given by its \<^verbatim>\<open>repr\<close>.
\<close>

datatype pyval =
    PyNone
  | PyBool bool
  | PyInt int
  | PyStr string
  | PyList "pyval list"
  | PyTuple "pyval list"
  | PySet "pyval list"
  | PyDict "(pyval \<times> pyval) list"
  | PyObj string

text \<open>
  The two built-ins of Python that the formatting code calls and that are not modelled
  here in full are parameters: \<^verbatim>\<open>ast.literal_eval\<close> on a string, and \<^verbatim>\<open>str\<close> on a value
  that is not a string.
\<close>

record python =
  literal_eval :: "string \<Rightarrow> error + pyval"
  str_of_value :: "pyval \<Rightarrow> string"

text \<open>\<^verbatim>\<open>str(v)\<close>, which is also what an f-string substitutes for \<^verbatim>\<open>{v}\<close>.\<close>

definition py_str :: "python \<Rightarrow> pyval \<Rightarrow> string" where
  "py_str py v = (case v of PyStr s \<Rightarrow> s | _ \<Rightarrow> str_of_value py v)"

text \<open>Decimal notation of an integer: \<^verbatim>\<open>str(index)\<close>.\<close>

definition digit_char :: "nat \<Rightarrow> char" where
  "digit_char d = ''0123456789'' ! d"

fun str_nat :: "nat \<Rightarrow> string" where
  "str_nat n = (if n < 10 then [digit_char n] else str_nat (n div 10) @ [digit_char (n mod 10)])"

declare str_nat.simps [simp del]

definition str_int :: "int \<Rightarrow> string" where
  "str_int i = (if i < 0 then CHR ''-'' # str_nat (nat (- i)) else str_nat (nat i))"

text \<open>
  \<^verbatim>\<open>ref.strip().startswith("{")\<close>. The whitespace that \<^verbatim>\<open>strip\<close> removes, within ASCII: the
  characters 9 to 13, 28 to 31 and the space.
\<close>

definition isspace :: "char \<Rightarrow> bool" where
  "isspace c = (let n = of_char c :: nat in (9 \<le> n \<and> n \<le> 13) \<or> (28 \<le> n \<and> n \<le> 32))"

definition strip :: "string \<Rightarrow> string" where
  "strip s = rev (dropWhile isspace (rev (dropWhile isspace s)))"

fun startswith :: "string \<Rightarrow> string \<Rightarrow> bool" where
  "startswith s [] = True"
| "startswith [] (p # ps) = False"
| "startswith (c # cs) (p # ps) = (c = p \<and> startswith cs ps)"

text \<open>\<^verbatim>\<open>sub in s\<close> on strings: \<open>sub\<close> occurs in \<open>s\<close>.\<close>

fun str_contains :: "string \<Rightarrow> string \<Rightarrow> bool" where
  "str_contains [] sub = (sub = [])"
| "str_contains (c # cs) sub = (startswith (c # cs) sub \<or> str_contains cs sub)"

text \<open>
  \<^verbatim>\<open>key in v\<close> for a string \<open>key\<close>: the keys of a dict, the elements of a set, list or
  tuple, the substrings of a string; any other value is not iterable.
\<close>

definition py_in :: "string \<Rightarrow> pyval \<Rightarrow> error + bool" where
  "py_in key v =
     (case v of
        PyDict items \<Rightarrow> Inr (PyStr key \<in> set (map fst items))
      | PySet xs \<Rightarrow> Inr (PyStr key \<in> set xs)
      | PyList xs \<Rightarrow> Inr (PyStr key \<in> set xs)
      | PyTuple xs \<Rightarrow> Inr (PyStr key \<in> set xs)
      | PyStr s \<Rightarrow> Inr (str_contains s key)
      | PyNone \<Rightarrow> Inl TypeError
      | PyBool b \<Rightarrow> Inl TypeError
      | PyInt i \<Rightarrow> Inl TypeError
      | PyObj r \<Rightarrow> Inl TypeError)"

text \<open>\<^verbatim>\<open>v.get(key, default)\<close>: only a dict has the method.\<close>

definition py_get :: "pyval \<Rightarrow> string \<Rightarrow> pyval \<Rightarrow> error + pyval" where
  "py_get v key dflt =
     (case v of
        PyDict items \<Rightarrow> Inr (case map_of items (PyStr key) of Some x \<Rightarrow> x | None \<Rightarrow> dflt)
      | PyNone \<Rightarrow> Inl AttributeError
      | PyBool b \<Rightarrow> Inl AttributeError
      | PyInt i \<Rightarrow> Inl AttributeError
      | PyStr s \<Rightarrow> Inl AttributeError
      | PyList xs \<Rightarrow> Inl AttributeError
      | PyTuple xs \<Rightarrow> Inl AttributeError
      | PySet xs \<Rightarrow> Inl AttributeError
      | PyObj r \<Rightarrow> Inl AttributeError)"

subsection \<open>\<^verbatim>\<open>parse_reference\<close> and \<^verbatim>\<open>format_reference\<close>\<close>

text \<open>
  \<^verbatim>\<open>parse_reference\<close>: the bare \<^verbatim>\<open>except\<close> catches whatever \<^verbatim>\<open>ast.literal_eval\<close> raises; what
  \<^verbatim>\<open>ast.literal_eval\<close> returns is returned as it is.
\<close>

definition parse_reference :: "python \<Rightarrow> pyval \<Rightarrow> pyval" where
  "parse_reference py ref =
     (case ref of
        PyStr s \<Rightarrow>
          (if startswith (strip s) ''{''
           then (case literal_eval py s of
                   Inr v \<Rightarrow> v
                 | Inl e \<Rightarrow> PyDict [(PyStr ''text'', PyStr (py_str py ref))])
           else PyDict [(PyStr ''text'', PyStr (py_str py ref))])
      | _ \<Rightarrow> PyDict [(PyStr ''text'', PyStr (py_str py ref))])"

fun isinstance_str :: "pyval \<Rightarrow> bool" where
  "isinstance_str (PyStr s) = True"
| "isinstance_str v = False"

definition format_reference :: "python \<Rightarrow> pyval \<Rightarrow> int \<Rightarrow> error + string" where
  "format_reference py ref index =
     (let ref_dict = (if isinstance_str ref then parse_reference py ref else ref) in
      case py_in ''Author'' ref_dict of
        Inl e \<Rightarrow> Inl e
      | Inr True \<Rightarrow>
          (case py_get ref_dict ''Author'' (PyStr ''No Author'') of Inl e \<Rightarrow> Inl e | Inr author \<Rightarrow>
           case py_get ref_dict ''Title'' (PyStr ''No Title'') of Inl e \<Rightarrow> Inl e | Inr title \<Rightarrow>
           case py_get ref_dict ''URL'' (PyStr ''No URL'') of Inl e \<Rightarrow> Inl e | Inr url \<Rightarrow>
           case py_get ref_dict ''Date'' (PyStr ''N/A'') of Inl e \<Rightarrow> Inl e | Inr date \<Rightarrow>
             Inr (''['' @ str_int index @ ''] '' @ py_str py author @ '' - '' @ py_str py title
                    @ '' - '' @ py_str py url @ '' ('' @ py_str py date @ '')''))
      | Inr False \<Rightarrow>
          (case py_get ref_dict ''text'' (PyStr (py_str py ref)) of Inl e \<Rightarrow> Inl e | Inr text \<Rightarrow>
             Inr (''['' @ str_int index @ ''] '' @ py_str py text)))"

subsection \<open>A reader for flat brace displays\<close>

text \<open>
  An instance of \<^verbatim>\<open>ast.literal_eval\<close> to run the formatting code on concrete strings. It
  reads a brace display that starts at the first character and whose items are quoted
  strings (printable ASCII, no backslash) and decimal integers without sign: keys and
  values separated by a colon make a dict (a later item with the same key replaces the
  value), bare items make a set, and \<^verbatim>\<open>{}\<close> is the empty dict. On these strings it answers as
  Python does. It refuses every other string, also those that Python reads.
\<close>

datatype token = LBRACE | RBRACE | COLON | COMMA | ATOM pyval

datatype lexer_state = Between | InString char string | InNumber string

definition is_digit :: "char \<Rightarrow> bool" where
  "is_digit c = (let n = of_char c :: nat in 48 \<le> n \<and> n \<le> 57)"

definition is_plain :: "char \<Rightarrow> bool" where
  "is_plain c = (let n = of_char c :: nat in 32 \<le> n \<and> n \<le> 126 \<and> c \<noteq> CHR 0x5C)"

definition number_value :: "string \<Rightarrow> pyval option" where
  "number_value ds =
     (if length ds > 1 \<and> hd ds = CHR ''0'' then None
      else Some (PyInt (foldl (\<lambda>n c. 10 * n + int (of_char c - 48)) 0 ds)))"

definition emit :: "token option \<Rightarrow> token list option \<Rightarrow> token list option" where
  "emit t rest = (case t of None \<Rightarrow> None | Some x \<Rightarrow> map_option (Cons x) rest)"

fun lex :: "lexer_state \<Rightarrow> string \<Rightarrow> token list option" where
  "lex Between [] = Some []"
| "lex (InString q acc) [] = None"
| "lex (InNumber acc) [] = emit (map_option ATOM (number_value (rev acc))) (Some [])"
| "lex Between (c # cs) =
     (if c = CHR '' '' then lex Between cs
      else if c = CHR ''{'' then emit (Some LBRACE) (lex Between cs)
      else if c = CHR ''}'' then emit (Some RBRACE) (lex Between cs)
      else if c = CHR '':'' then emit (Some COLON) (lex Between cs)
      else if c = CHR '','' then emit (Some COMMA) (lex Between cs)
      else if c = CHR 0x27 \<or> c = CHR 0x22 then lex (InString c []) cs
      else if is_digit c then lex (InNumber [c]) cs
      else None)"
| "lex (InString q acc) (c # cs) =
     (if c = q then emit (Some (ATOM (PyStr (rev acc)))) (lex Between cs)
      else if is_plain c then lex (InString q (c # acc)) cs
      else None)"
| "lex (InNumber acc) (c # cs) =
     (if is_digit c then lex (InNumber (c # acc)) cs
      else emit (map_option ATOM (number_value (rev acc)))
        (if c = CHR '' '' then lex Between cs
         else if c = CHR ''}'' then emit (Some RBRACE) (lex Between cs)
         else if c = CHR '':'' then emit (Some COLON) (lex Between cs)
         else if c = CHR '','' then emit (Some COMMA) (lex Between cs)
         else None))"

fun dict_items :: "(pyval \<times> pyval) list \<Rightarrow> token list \<Rightarrow> pyval option" where
  "dict_items acc ts =
     (case ts of
        [RBRACE] \<Rightarrow> Some (PyDict acc)
      | [COMMA, RBRACE] \<Rightarrow> Some (PyDict acc)
      | COMMA # ATOM k # COLON # ATOM v # rest \<Rightarrow> dict_items (AList.update k v acc) rest
      | _ \<Rightarrow> None)"

declare dict_items.simps [simp del]

fun set_items :: "pyval list \<Rightarrow> token list \<Rightarrow> pyval option" where
  "set_items acc ts =
     (case ts of
        [RBRACE] \<Rightarrow> Some (PySet acc)
      | [COMMA, RBRACE] \<Rightarrow> Some (PySet acc)
      | COMMA # ATOM a # rest \<Rightarrow> set_items (if a \<in> set acc then acc else acc @ [a]) rest
      | _ \<Rightarrow> None)"

declare set_items.simps [simp del]

definition display :: "token list \<Rightarrow> pyval option" where
  "display ts =
     (case ts of
        [LBRACE, RBRACE] \<Rightarrow> Some (PyDict [])
      | LBRACE # ATOM k # COLON # ATOM v # rest \<Rightarrow> dict_items [(k, v)] rest
      | LBRACE # ATOM a # rest \<Rightarrow> set_items [a] rest
      | _ \<Rightarrow> None)"

definition literal_eval_flat :: "string \<Rightarrow> error + pyval" where
  "literal_eval_flat s =
     (case s of
        [] \<Rightarrow> Inl SyntaxError
      | c # cs \<Rightarrow>
          (if c \<noteq> CHR ''{'' then Inl SyntaxError
           else (case Option.bind (lex Between s) display of
                   None \<Rightarrow> Inl SyntaxError
                 | Some v \<Rightarrow> Inr v)))"

section \<open>Notions used to state the properties\<close>

text \<open>The invocation that the loop builds for one query.\<close>

definition mk_invocation :: "string \<Rightarrow> ToolInvocation" where
  "mk_invocation query = \<lparr>tool = ''tavily_search_results_json'', tool_input = query\<rparr>"

text \<open>The queries of a batch of parsed calls in the order of the loop, and the id of each.\<close>

definition batch_queries :: "tool_call list \<Rightarrow> string list" where
  "batch_queries tcs = concat (map (\<lambda>tc. search_queries (call_args tc)) tcs)"

definition batch_ids :: "tool_call list \<Rightarrow> string list" where
  "batch_ids tcs = concat (map (\<lambda>tc. map (\<lambda>q. call_id tc) (search_queries (call_args tc))) tcs)"

text \<open>
  The answer of the search service to call number \<open>n\<close> (from 0) of a pass that starts with
  the log \<open>w\<close> and issues the queries \<open>qs\<close> in order.
\<close>

definition nth_call :: "'r services \<Rightarrow> call list \<Rightarrow> string list \<Rightarrow> nat \<Rightarrow> error + 'r" where
  "nth_call sv w qs n = tavily_invoke sv (w @ map Search (take n qs)) (qs ! n)"

text \<open>
  The node that a run executes next, with the log and the history it is handed, after \<open>k\<close>
  node executions that returned and did not end the run.
\<close>

fun steps ::
  "nat \<Rightarrow> 'r MessageGraph \<Rightarrow> string \<times> call list \<times> 'r message list
     \<Rightarrow> (string \<times> call list \<times> 'r message list) option" where
  "steps 0 g c = Some c"
| "steps (Suc k) g (node, w, state) =
     (case map_of (nodes g) node of
        None \<Rightarrow> None
      | Some action \<Rightarrow>
          (case action w state of
             (Inl e, w') \<Rightarrow> None
           | (Inr turns, w') \<Rightarrow>
               (if next_node g node (state @ turns) = END then None
                else steps k g (next_node g node (state @ turns), w', state @ turns))))"

section \<open>Instances\<close>

text \<open>
  A proposal with a given id and given queries, and services to run the nodes on: every
  completion is the proposal \<open>call_1\<close> with the one query \<open>q\<close>, and the search service answers
  a query with the number of calls made before it. With the second services every completion
  is a proposal with the queries \<open>a\<close>, \<open>bad\<close> and \<open>c\<close>, and the search service fails on the
  query \<open>bad\<close>. With the third services every completion is a proposal without queries.
\<close>

definition sample_call :: "string \<Rightarrow> string list \<Rightarrow> tool_call" where
  "sample_call i qs =
     \<lparr>call_type = ''AnswerQuestion'',
      call_args = \<lparr>answer = ''text'', reflection = \<lparr>missing = ''none'', superfluous = ''none''\<rparr>,
                   search_queries = qs, references = None\<rparr>,
      call_id = i\<rparr>"

definition sample_services :: "nat services" where
  "sample_services =
     \<lparr>first_responder_invoke = (\<lambda>w messages. Inr [sample_call ''call_1'' [''q'']]),
      revisor_invoke = (\<lambda>w messages. Inr [sample_call ''call_1'' [''q'']]),
      tavily_invoke = (\<lambda>w query. Inr (length w))\<rparr>"

definition failing_services :: "nat services" where
  "failing_services =
     \<lparr>first_responder_invoke = (\<lambda>w messages. Inr [sample_call ''call_1'' [''a'', ''bad'', ''c'']]),
      revisor_invoke = (\<lambda>w messages. Inr [sample_call ''call_1'' [''a'', ''bad'', ''c'']]),
      tavily_invoke = (\<lambda>w query. if query = ''bad'' then Inl SearchError else Inr (length w))\<rparr>"

definition silent_services :: "nat services" where
  "silent_services =
     \<lparr>first_responder_invoke = (\<lambda>w messages. Inr [sample_call ''call_1'' []]),
      revisor_invoke = (\<lambda>w messages. Inr [sample_call ''call_1'' []]),
      tavily_invoke = (\<lambda>w query. Inr (length w))\<rparr>"

section \<open>Properties of the transition function\<close>

lemma count_tool_visits_length:
  "count_tool_visits state = int (length (filter isinstance_ToolMessage state))"
  by (induction state) (simp_all add: count_tool_visits_def)

lemma event_loop_cases: "event_loop mi state = END \<or> event_loop mi state = ''execute_tools''"
  by (simp add: event_loop_def)

lemma names_not_END: "''execute_tools'' \<noteq> END" "''revise'' \<noteq> END" "''draft'' \<noteq> END"
  by (simp_all add: END_def)

text \<open>
  Claim C1. For every history and every \<open>max_iterations\<close>, the transition function after
  REVISE returns \<open>END\<close> exactly when the number of tool-result turns in the history is
  strictly greater than \<open>max_iterations\<close>, and returns \<open>execute_tools\<close> otherwise, so a count
  equal to \<open>max_iterations\<close> continues.
\<close>

theorem event_loop_threshold:
  "(event_loop max_iterations state = END) =
     (int (length (filter isinstance_ToolMessage state)) > max_iterations)
   \<and> (event_loop max_iterations state = ''execute_tools'') =
     (int (length (filter isinstance_ToolMessage state)) \<le> max_iterations)
   \<and> (event_loop (int (length (filter isinstance_ToolMessage state))) state = ''execute_tools'')"
  by (simp add: event_loop_def count_tool_visits_length END_def)

section \<open>Properties of the entry step\<close>

text \<open>
  Claim C5. Handed an empty list, or an object that is neither a string nor a list,
  \<^verbatim>\<open>draft_node\<close> raises \<open>ValueError\<close> at once: the completion service is not called (the log
  is unchanged) and no turn is returned. These are the only inputs on which the block that
  computes \<^verbatim>\<open>messages\<close> raises: for a string and for a non-empty list it yields a non-empty
  list of messages, which is what the completion service is then called with.
\<close>

theorem draft_rejects_invalid_state:
  "(\<exists>e. draft_messages state = Inl e) = (state = StateList [] \<or> (\<exists>ty. state = StateObj ty))
   \<and> draft_node sv w (StateList []) = (Inl (ValueError ''Empty state received''), w)
   \<and> draft_node sv w (StateObj ty) = (Inl (ValueError (''Unexpected state type: '' @ ty)), w)
   \<and> (\<exists>messages. draft_messages (StateStr s) = Inr messages \<and> messages \<noteq> []
         \<and> draft_node sv w (StateStr s) = first_responder sv w messages)
   \<and> (xs \<noteq> [] \<longrightarrow>
        (\<exists>messages. draft_messages (StateList xs) = Inr messages \<and> messages \<noteq> []
           \<and> draft_node sv w (StateList xs) = first_responder sv w messages))"
proof -
  have 1: "(\<exists>e. draft_messages state = Inl e) = (state = StateList [] \<or> (\<exists>ty. state = StateObj ty))"
    by (cases state) (auto simp: draft_messages_def split: item.splits)
  have 2: "\<exists>messages. draft_messages (StateList xs) = Inr messages \<and> messages \<noteq> []
           \<and> draft_node sv w (StateList xs) = first_responder sv w messages" if "xs \<noteq> []"
    using that by (cases "last xs") (simp_all add: draft_messages_def draft_node_def)
  from 1 2 show ?thesis by (simp add: draft_messages_def draft_node_def)
qed

theorem draft_rejects_invalid_state_witness:
  "\<exists>messages. draft_messages (StateList [Msg (HumanMessage ''why'') :: nat item]) = Inr messages
      \<and> messages \<noteq> []
      \<and> draft_node sample_services [] (StateList [Msg (HumanMessage ''why'')])
          = first_responder sample_services [] messages"
proof -
  have "[Msg (HumanMessage ''why'') :: nat item] \<noteq> []" by simp
  then show ?thesis
    by (rule draft_rejects_invalid_state
          [THEN conjunct2, THEN conjunct2, THEN conjunct2, THEN conjunct2, rule_format])
qed

section \<open>Properties of the tool pass\<close>

subsection \<open>Collecting the invocations and calling the search tool\<close>

lemma fold_append_query:
  "fold (append_query tc) qs (ids, tis) =
     (ids @ map (\<lambda>q. call_id tc) qs, tis @ map mk_invocation qs)"
  by (induction qs arbitrary: ids tis) (simp_all add: append_query_def mk_invocation_def)

lemma fold_append_queries:
  "fold append_queries tcs (ids, tis) =
     (ids @ batch_ids tcs, tis @ map mk_invocation (batch_queries tcs))"
  by (induction tcs arbitrary: ids tis)
     (simp_all add: append_queries_def fold_append_query batch_ids_def batch_queries_def)

lemma collect_invocations_eq:
  "collect_invocations tcs = (batch_ids tcs, map mk_invocation (batch_queries tcs))"
  by (simp add: collect_invocations_def fold_append_queries)

lemma tool_input_mk [simp]: "tool_input (mk_invocation q) = q"
  by (simp add: mk_invocation_def)

lemma length_batch_ids: "length (batch_ids tcs) = length (batch_queries tcs)"
  by (induction tcs) (simp_all add: batch_ids_def batch_queries_def)

text \<open>
  When every call of the pass succeeds, the comprehension returns one output per query and
  the log grows by the queries, in order. When call \<open>n\<close> is the first to fail, its exception
  leaves the comprehension and the calls after it are not made.
\<close>

lemma execute_all_ok:
  "(\<And>n. n < length qs \<Longrightarrow> \<exists>r. nth_call sv w qs n = Inr r) \<Longrightarrow>
   \<exists>outs. execute_all sv w (map mk_invocation qs) = (Inr outs, w @ map Search qs)
      \<and> length outs = length qs
      \<and> (\<forall>n<length qs. nth_call sv w qs n = Inr (outs ! n))"
proof (induction qs arbitrary: w)
  case Nil
  then show ?case by simp
next
  case (Cons q qs)
  from Cons.prems [of 0] obtain r where r: "tavily_invoke sv w q = Inr r"
    by (auto simp: nth_call_def)
  have shift: "nth_call sv (w @ [Search q]) qs n = nth_call sv w (q # qs) (Suc n)" for n
    by (simp add: nth_call_def)
  have "\<And>n. n < length qs \<Longrightarrow> \<exists>r. nth_call sv (w @ [Search q]) qs n = Inr r"
    using Cons.prems [of "Suc _"] by (simp add: shift)
  from Cons.IH [OF this] obtain outs where
    outs: "execute_all sv (w @ [Search q]) (map mk_invocation qs) = (Inr outs, (w @ [Search q]) @ map Search qs)"
      "length outs = length qs"
      "\<forall>n<length qs. nth_call sv (w @ [Search q]) qs n = Inr (outs ! n)"
    by blast
  have "execute_all sv w (map mk_invocation (q # qs)) = (Inr (r # outs), w @ map Search (q # qs))"
    using r outs(1) by (simp add: SearchTool_execute_def)
  moreover have "\<forall>n<length (q # qs). nth_call sv w (q # qs) n = Inr ((r # outs) ! n)"
  proof (intro allI impI)
    fix n assume "n < length (q # qs)"
    then show "nth_call sv w (q # qs) n = Inr ((r # outs) ! n)"
      using r outs(3) by (cases n) (simp_all add: shift [symmetric], simp add: nth_call_def)
  qed
  ultimately show ?case using outs(2) by auto
qed

lemma execute_all_fail:
  "n < length qs \<Longrightarrow> (\<And>m. m < n \<Longrightarrow> \<exists>r. nth_call sv w qs m = Inr r) \<Longrightarrow>
   nth_call sv w qs n = Inl e \<Longrightarrow>
   execute_all sv w (map mk_invocation qs) = (Inl e, w @ map Search (take (Suc n) qs))"
proof (induction qs arbitrary: w n)
  case Nil
  then show ?case by simp
next
  case (Cons q qs)
  have shift: "nth_call sv (w @ [Search q]) qs k = nth_call sv w (q # qs) (Suc k)" for k
    by (simp add: nth_call_def)
  show ?case
  proof (cases n)
    case 0
    with Cons.prems(3) have "tavily_invoke sv w q = Inl e" by (simp add: nth_call_def)
    with 0 show ?thesis by (simp add: SearchTool_execute_def)
  next
    case (Suc k)
    from Cons.prems(2) [of 0] Suc obtain r where r: "tavily_invoke sv w q = Inr r"
      by (auto simp: nth_call_def)
    have "k < length qs" using Cons.prems(1) Suc by simp
    moreover have "\<And>m. m < k \<Longrightarrow> \<exists>r. nth_call sv (w @ [Search q]) qs m = Inr r"
      using Cons.prems(2) [of "Suc _"] Suc by (simp add: shift)
    moreover have "nth_call sv (w @ [Search q]) qs k = Inl e"
      using Cons.prems(3) Suc by (simp add: shift)
    ultimately have "execute_all sv (w @ [Search q]) (map mk_invocation qs)
                       = (Inl e, (w @ [Search q]) @ map Search (take (Suc k) qs))"
      by (rule Cons.IH)
    with r Suc show ?thesis by (simp add: SearchTool_execute_def)
  qed
qed

lemma execute_tools_node_returns:
  assumes "state \<noteq> []" and "parser_invoke (last state) = tcs"
    and "\<And>n. n < length (batch_queries tcs) \<Longrightarrow> \<exists>r. nth_call sv w (batch_queries tcs) n = Inr r"
  shows "\<exists>outs. length outs = length (batch_queries tcs)
      \<and> (\<forall>n<length (batch_queries tcs). nth_call sv w (batch_queries tcs) n = Inr (outs ! n))
      \<and> execute_tools_node sv w state =
          (Inr (map (\<lambda>(i, d). ToolMessage d i)
                  (build_outputs_map (batch_ids tcs) outs (map mk_invocation (batch_queries tcs)))),
           w @ map Search (batch_queries tcs))"
proof -
  from execute_all_ok [of "batch_queries tcs" sv w, OF assms(3)] obtain outs where
    outs: "execute_all sv w (map mk_invocation (batch_queries tcs)) = (Inr outs, w @ map Search (batch_queries tcs))"
      "length outs = length (batch_queries tcs)"
      "\<forall>n<length (batch_queries tcs). nth_call sv w (batch_queries tcs) n = Inr (outs ! n)"
    by blast
  have "execute_tools_node sv w state =
          (Inr (map (\<lambda>(i, d). ToolMessage d i)
                  (build_outputs_map (batch_ids tcs) outs (map mk_invocation (batch_queries tcs)))),
           w @ map Search (batch_queries tcs))"
    using assms(1,2) outs(1) by (simp add: execute_tools_node_def collect_invocations_eq)
  with outs(2,3) show ?thesis by blast
qed

lemma execute_tools_node_raises:
  assumes "state \<noteq> []" and "parser_invoke (last state) = tcs"
    and "n < length (batch_queries tcs)"
    and "\<And>m. m < n \<Longrightarrow> \<exists>r. nth_call sv w (batch_queries tcs) m = Inr r"
    and "nth_call sv w (batch_queries tcs) n = Inl e"
  shows "execute_tools_node sv w state = (Inl e, w @ map Search (take (Suc n) (batch_queries tcs)))"
  using assms(1,2) execute_all_fail [OF assms(3,4,5)]
  by (simp add: execute_tools_node_def collect_invocations_eq)

subsection \<open>Grouping the outputs by id\<close>

lemma map_of_outputs_map_set:
  "map_of (outputs_map_set (i, out, iv) m) =
     (map_of m)(i \<mapsto> AList.update (tool_input iv) out (case map_of m i of None \<Rightarrow> [] | Some d \<Rightarrow> d))"
  by (simp add: outputs_map_set_def update_conv')

lemma keys_outputs_map_set:
  "fst ` set (outputs_map_set row m) = insert (fst row) (fst ` set m)"
  by (cases row) (simp add: outputs_map_set_def dom_update)

lemma distinct_outputs_map_set:
  "distinct (map fst m) \<Longrightarrow> distinct (map fst (outputs_map_set row m))"
  by (cases row) (simp add: outputs_map_set_def distinct_update)

lemma keys_fold_outputs_map_set:
  "fst ` set (fold outputs_map_set rows m) = fst ` set rows \<union> fst ` set m"
  by (induction rows arbitrary: m) (auto simp: keys_outputs_map_set)

lemma distinct_fold_outputs_map_set:
  "distinct (map fst m) \<Longrightarrow> distinct (map fst (fold outputs_map_set rows m))"
  by (induction rows arbitrary: m) (simp_all add: distinct_outputs_map_set)

text \<open>
  The inner dicts: their keys stay distinct, and are the queries of the rows with that id.
\<close>

lemma inner_distinct_outputs_map_set:
  assumes "distinct (map fst m)" "\<And>i d. map_of m i = Some d \<Longrightarrow> distinct (map fst d)"
    and "map_of (outputs_map_set row m) j = Some d'"
  shows "distinct (map fst d')"
proof (cases row)
  case (fields i out iv)
  show ?thesis
  proof (cases "j = i")
    case True
    then have "d' = AList.update (tool_input iv) out (case map_of m i of None \<Rightarrow> [] | Some d \<Rightarrow> d)"
      using assms(3) fields by (simp add: map_of_outputs_map_set)
    moreover have "distinct (map fst (case map_of m i of None \<Rightarrow> [] | Some d \<Rightarrow> d))"
      using assms(2) by (cases "map_of m i") simp_all
    ultimately show ?thesis by (simp add: distinct_update)
  next
    case False
    then show ?thesis using assms(2,3) fields by (simp add: map_of_outputs_map_set)
  qed
qed

lemma inner_distinct_fold:
  "distinct (map fst m) \<Longrightarrow> (\<And>i d. map_of m i = Some d \<Longrightarrow> distinct (map fst d)) \<Longrightarrow>
   map_of (fold outputs_map_set rows m) j = Some d' \<Longrightarrow> distinct (map fst d')"
proof (induction rows arbitrary: m)
  case Nil
  then show ?case by simp
next
  case (Cons row rows)
  show ?case
  proof (rule Cons.IH [where m = "outputs_map_set row m"])
    show "distinct (map fst (outputs_map_set row m))"
      using Cons.prems(1) by (rule distinct_outputs_map_set)
    show "distinct (map fst d)" if "map_of (outputs_map_set row m) i = Some d" for i d
      using Cons.prems(1,2) that by (rule inner_distinct_outputs_map_set)
    show "map_of (fold outputs_map_set rows (outputs_map_set row m)) j = Some d'"
      using Cons.prems(3) by simp
  qed
qed

lemma inner_keys_fold:
  "map_of (fold outputs_map_set rows m) j = Some d' \<Longrightarrow>
   fst ` set d' =
     (case map_of m j of None \<Rightarrow> {} | Some d \<Rightarrow> fst ` set d)
     \<union> {tool_input iv |out iv. (j, out, iv) \<in> set rows}"
proof (induction rows arbitrary: m)
  case Nil
  then show ?case by simp
next
  case (Cons row rows)
  obtain i out iv where row: "row = (i, out, iv)" by (cases row)
  have step: "(case map_of (outputs_map_set row m) j of None \<Rightarrow> {} | Some d \<Rightarrow> fst ` set d)
     = (case map_of m j of None \<Rightarrow> {} | Some d \<Rightarrow> fst ` set d)
       \<union> (if i = j then {tool_input iv} else {})"
    by (cases "map_of m j") (auto simp: row map_of_outputs_map_set dom_update)
  from Cons.prems have "map_of (fold outputs_map_set rows (outputs_map_set row m)) j = Some d'"
    by simp
  from Cons.IH [OF this] show ?case
    unfolding step by (auto simp: row)
qed

text \<open>
  The value kept for a query is the output of the last row with that id and query.
\<close>

lemma last_row_wins:
  "n < length rows \<Longrightarrow> rows ! n = (i, out, iv) \<Longrightarrow>
   (\<And>k. n < k \<Longrightarrow> k < length rows \<Longrightarrow>
      \<not> (fst (rows ! k) = i \<and> tool_input (snd (snd (rows ! k))) = tool_input iv)) \<Longrightarrow>
   \<exists>d. map_of (fold outputs_map_set rows m) i = Some d \<and> map_of d (tool_input iv) = Some out"
proof (induction rows arbitrary: n rule: rev_induct)
  case Nil
  then show ?case by simp
next
  case (snoc row rows)
  obtain i' out' iv' where row: "row = (i', out', iv')" by (cases row)
  let ?m = "fold outputs_map_set rows m"
  have final: "map_of (fold outputs_map_set (rows @ [row]) m) =
     (map_of ?m)(i' \<mapsto> AList.update (tool_input iv') out' (case map_of ?m i' of None \<Rightarrow> [] | Some d \<Rightarrow> d))"
    by (simp add: row map_of_outputs_map_set)
  show ?case
  proof (cases "n = length rows")
    case True
    with snoc.prems(2) row have "i' = i" "out' = out" "iv' = iv" by simp_all
    then show ?thesis unfolding final by (simp add: update_conv')
  next
    case False
    with snoc.prems(1) have n: "n < length rows" by simp
    have nth: "rows ! n = (i, out, iv)" using snoc.prems(2) n by (simp add: nth_append)
    have later: "\<not> (fst (rows ! k) = i \<and> tool_input (snd (snd (rows ! k))) = tool_input iv)"
      if "n < k" "k < length rows" for k
      using snoc.prems(3) [of k] that by (simp add: nth_append)
    from snoc.IH [OF n nth later] obtain d where
      d: "map_of ?m i = Some d" "map_of d (tool_input iv) = Some out" by blast
    have lastrow: "\<not> (i' = i \<and> tool_input iv' = tool_input iv)"
      using snoc.prems(3) [of "length rows"] n by (simp add: row)
    show ?thesis
    proof (cases "i' = i")
      case True
      with lastrow have "tool_input iv' \<noteq> tool_input iv" by simp
      with True d show ?thesis unfolding final by (simp add: update_conv')
    next
      case False
      with d show ?thesis unfolding final by simp
    qed
  qed
qed

subsection \<open>The rows of a pass and the turns it emits\<close>

lemma rows_nth:
  "length ids = length qs \<Longrightarrow> length outs = length qs \<Longrightarrow> n < length qs \<Longrightarrow>
   zip ids (zip outs (map mk_invocation qs)) ! n = (ids ! n, outs ! n, mk_invocation (qs ! n))"
  by simp

lemma rows_ids:
  "length ids = length qs \<Longrightarrow> length outs = length qs \<Longrightarrow>
   fst ` set (zip ids (zip outs (map mk_invocation qs))) = set ids"
proof -
  assume "length ids = length qs" "length outs = length qs"
  then have "map fst (zip ids (zip outs (map mk_invocation qs))) = ids"
    by (simp add: map_fst_zip)
  then show ?thesis by (metis set_map)
qed

lemma rows_queries:
  assumes "length ids = length qs" "length outs = length qs"
  shows "{tool_input iv |out iv. (j, out, iv) \<in> set (zip ids (zip outs (map mk_invocation qs)))}
         = {q. (j, q) \<in> set (zip ids qs)}"
proof (intro set_eqI iffI)
  fix q assume "q \<in> {tool_input iv |out iv. (j, out, iv) \<in> set (zip ids (zip outs (map mk_invocation qs)))}"
  then obtain out iv where q: "q = tool_input iv"
    and mem: "(j, out, iv) \<in> set (zip ids (zip outs (map mk_invocation qs)))" by blast
  from mem obtain n where n: "n < length qs" "zip ids (zip outs (map mk_invocation qs)) ! n = (j, out, iv)"
    using assms by (auto simp: in_set_conv_nth)
  with assms have "ids ! n = j" "iv = mk_invocation (qs ! n)" by simp_all
  with n(1) assms q have "(j, q) = zip ids qs ! n" by simp
  with n(1) assms show "q \<in> {q. (j, q) \<in> set (zip ids qs)}"
    by (metis (mono_tags, lifting) in_set_conv_nth length_zip mem_Collect_eq min.idem)
next
  fix q assume "q \<in> {q. (j, q) \<in> set (zip ids qs)}"
  then obtain n where n: "n < length qs" "ids ! n = j" "qs ! n = q"
    using assms by (auto simp: in_set_conv_nth)
  with assms have "zip ids (zip outs (map mk_invocation qs)) ! n = (j, outs ! n, mk_invocation q)"
    by simp
  moreover have "n < length (zip ids (zip outs (map mk_invocation qs)))" using n(1) assms by simp
  ultimately have "(j, outs ! n, mk_invocation q) \<in> set (zip ids (zip outs (map mk_invocation qs)))"
    by (metis nth_mem)
  then show "q \<in> {tool_input iv |out iv. (j, out, iv) \<in> set (zip ids (zip outs (map mk_invocation qs)))}"
    by force
qed

lemma zip_batch:
  "zip (batch_ids tcs) (batch_queries tcs) =
     concat (map (\<lambda>tc. map (\<lambda>q. (call_id tc, q)) (search_queries (call_args tc))) tcs)"
proof (induction tcs)
  case Nil
  then show ?case by (simp add: batch_ids_def batch_queries_def)
next
  case (Cons tc tcs)
  have "zip (map (\<lambda>q. call_id tc) qs) qs = map (\<lambda>q. (call_id tc, q)) qs" for qs :: "string list"
    by (induction qs) simp_all
  with Cons show ?case by (simp add: batch_ids_def batch_queries_def)
qed

lemma set_zip_batch:
  "set (zip (batch_ids tcs) (batch_queries tcs)) =
     {(call_id tc, q) |tc q. tc \<in> set tcs \<and> q \<in> set (search_queries (call_args tc))}"
  unfolding zip_batch by auto

lemma set_batch_ids:
  "set (batch_ids tcs) = call_id ` {tc \<in> set tcs. search_queries (call_args tc) \<noteq> []}"
proof -
  have "set (map (\<lambda>q. call_id tc) qs) = (if qs = [] then {} else {call_id tc})"
    for tc :: tool_call and qs :: "string list"
    by (cases qs) auto
  then show ?thesis
    unfolding batch_ids_def by (auto split: if_splits)
qed

lemma set_batch_ids_subset: "set (batch_ids tcs) \<subseteq> call_id ` set tcs"
  by (auto simp: set_batch_ids)

lemma batch_queries_split:
  "batch_queries (pre @ tc # post) =
     batch_queries pre @ search_queries (call_args tc) @ batch_queries post"
  by (simp add: batch_queries_def)

lemma batch_ids_split:
  "batch_ids (pre @ tc # post) =
     batch_ids pre @ map (\<lambda>q. call_id tc) (search_queries (call_args tc)) @ batch_ids post"
  by (simp add: batch_ids_def)

lemma nth_middle_part:
  "k < length ys \<Longrightarrow> (xs @ ys @ zs) ! (length xs + k) = ys ! k"
  by (simp add: nth_append)

lemma nth_last_part:
  "length xs + length ys \<le> m \<Longrightarrow> m < length (xs @ ys @ zs) \<Longrightarrow> (xs @ ys @ zs) ! m \<in> set zs"
proof -
  assume a: "length xs + length ys \<le> m" "m < length (xs @ ys @ zs)"
  then have "\<not> m < length xs" "\<not> m - length xs < length ys" by arith+
  then have "(xs @ ys @ zs) ! m = zs ! (m - length xs - length ys)"
    by (simp add: nth_append)
  moreover have "m - length xs - length ys < length zs" using a by simp
  ultimately show ?thesis by simp
qed

lemma build_outputs_map_keys:
  assumes "length ids = length qs" "length outs = length qs"
  shows "distinct (map fst (build_outputs_map ids outs (map mk_invocation qs)))"
    and "set (map fst (build_outputs_map ids outs (map mk_invocation qs))) = set ids"
  using assms
  by (simp_all add: build_outputs_map_def distinct_fold_outputs_map_set
        keys_fold_outputs_map_set rows_ids)

lemma build_outputs_map_inner:
  assumes "length ids = length qs" "length outs = length qs"
    and "(j, d) \<in> set (build_outputs_map ids outs (map mk_invocation qs))"
  shows "distinct (map fst d)" and "fst ` set d = {q. (j, q) \<in> set (zip ids qs)}"
proof -
  have m: "map_of (fold outputs_map_set (zip ids (zip outs (map mk_invocation qs))) []) j = Some d"
    using assms(3) build_outputs_map_keys(1) [OF assms(1,2)]
    by (simp add: build_outputs_map_def)
  show "distinct (map fst d)"
    by (rule inner_distinct_fold [OF _ _ m]) simp_all
  show "fst ` set d = {q. (j, q) \<in> set (zip ids qs)}"
    using inner_keys_fold [OF m] rows_queries [OF assms(1,2)] by simp
qed


lemma emitted_turns:
  assumes "length ids = length qs" "length outs = length qs"
  defines "msgs \<equiv> map (\<lambda>(i, d). ToolMessage d i) (build_outputs_map ids outs (map mk_invocation qs))"
  shows "map tool_call_id msgs = map fst (build_outputs_map ids outs (map mk_invocation qs))"
    and "\<forall>m\<in>set msgs. isinstance_ToolMessage m"
    and "m \<in> set msgs \<Longrightarrow> (tool_call_id m, query_outputs m) \<in> set (build_outputs_map ids outs (map mk_invocation qs))"
  unfolding msgs_def by (auto simp: comp_def case_prod_beta)


lemma no_queries_pass:
  "state \<noteq> [] \<Longrightarrow> last state = AIMessage [tc] \<Longrightarrow> search_queries (call_args tc) = [] \<Longrightarrow>
   execute_tools_node sv w state = (Inr [], w)"
  by (simp add: execute_tools_node_def collect_invocations_def append_queries_def
        build_outputs_map_def)

subsection \<open>A batch of proposals\<close>

text \<open>
  Claim C4. For a batch of parsed calls in which every proposal has at least one query and
  no search fails, the pass returns as many tool-result turns as there are distinct proposal
  ids in the batch: the ids of the turns are distinct and are the ids of the batch, and the
  keys of the mapping of a turn are the queries of the proposals with the id of the turn.
\<close>

theorem one_turn_per_proposal_id:
  assumes "state \<noteq> []" and "last state = AIMessage tcs"
    and "\<forall>tc\<in>set tcs. search_queries (call_args tc) \<noteq> []"
    and "\<forall>n<length (batch_queries tcs). \<exists>r. nth_call sv w (batch_queries tcs) n = Inr r"
  shows "\<exists>msgs. execute_tools_node sv w state = (Inr msgs, w @ map Search (batch_queries tcs))
           \<and> length msgs = card (call_id ` set tcs)
           \<and> (\<forall>m\<in>set msgs. isinstance_ToolMessage m)
           \<and> distinct (map tool_call_id msgs)
           \<and> set (map tool_call_id msgs) = call_id ` set tcs
           \<and> (\<forall>m\<in>set msgs. fst ` set (query_outputs m) =
                 \<Union> {set (search_queries (call_args tc)) |tc. tc \<in> set tcs \<and> call_id tc = tool_call_id m})"
proof -
  let ?qs = "batch_queries tcs"
  let ?ids = "batch_ids tcs"
  have p: "parser_invoke (last state) = tcs" using assms(2) by simp
  from execute_tools_node_returns [OF assms(1) p] assms(4) obtain outs where
    len: "length outs = length ?qs"
    and res: "execute_tools_node sv w state =
          (Inr (map (\<lambda>(i, d). ToolMessage d i) (build_outputs_map ?ids outs (map mk_invocation ?qs))),
           w @ map Search ?qs)"
    by blast
  let ?om = "build_outputs_map ?ids outs (map mk_invocation ?qs)"
  let ?msgs = "map (\<lambda>(i, d). ToolMessage d i) ?om"
  have lid: "length ?ids = length ?qs" by (rule length_batch_ids)
  note keys = build_outputs_map_keys [OF lid len]
  note turns = emitted_turns [OF lid len]
  have ids: "set ?ids = call_id ` set tcs"
    using assms(3) by (auto simp: set_batch_ids)
  have "card (set (map fst ?om)) = length (map fst ?om)" using keys(1) by (rule distinct_card)
  then have 1: "length ?msgs = card (call_id ` set tcs)" using keys(2) ids by simp
  have 2: "distinct (map tool_call_id ?msgs)" using keys(1) by (simp only: turns(1))
  have 3: "set (map tool_call_id ?msgs) = call_id ` set tcs" using keys(2) ids by (simp only: turns(1))
  have 4: "fst ` set (query_outputs m) =
      \<Union> {set (search_queries (call_args tc)) |tc. tc \<in> set tcs \<and> call_id tc = tool_call_id m}"
    if "m \<in> set ?msgs" for m
  proof -
    from turns(3) [OF that] have "(tool_call_id m, query_outputs m) \<in> set ?om" .
    from build_outputs_map_inner(2) [OF lid len this]
    have "fst ` set (query_outputs m) =
        {q. \<exists>tc. tc \<in> set tcs \<and> call_id tc = tool_call_id m \<and> q \<in> set (search_queries (call_args tc))}"
      unfolding set_zip_batch by auto
    also have "\<dots> = \<Union> {set (search_queries (call_args tc)) |tc. tc \<in> set tcs \<and> call_id tc = tool_call_id m}"
      by blast
    finally show ?thesis .
  qed
  show ?thesis
  proof (intro exI [of _ ?msgs] conjI ballI)
    show "execute_tools_node sv w state = (Inr ?msgs, w @ map Search ?qs)" by (rule res)
    show "length ?msgs = card (call_id ` set tcs)" by (rule 1)
    show "isinstance_ToolMessage m" if "m \<in> set ?msgs" for m using turns(2) that by blast
    show "distinct (map tool_call_id ?msgs)" by (rule 2)
    show "set (map tool_call_id ?msgs) = call_id ` set tcs" by (rule 3)
    show "fst ` set (query_outputs m) =
      \<Union> {set (search_queries (call_args tc)) |tc. tc \<in> set tcs \<and> call_id tc = tool_call_id m}"
      if "m \<in> set ?msgs" for m using that by (rule 4)
  qed
qed

theorem one_turn_per_proposal_id_witness:
  "\<exists>msgs. execute_tools_node sample_services []
              [HumanMessage ''why'',
               AIMessage [sample_call ''call_1'' [''a'', ''b''], sample_call ''call_2'' [''c'']]]
            = (Inr msgs, [Search ''a'', Search ''b'', Search ''c''])
      \<and> length msgs = 2
      \<and> set (map tool_call_id msgs) = {''call_1'', ''call_2''}"
proof -
  let ?tcs = "[sample_call ''call_1'' [''a'', ''b''], sample_call ''call_2'' [''c'']]"
  have qs: "batch_queries ?tcs = [''a'', ''b'', ''c'']"
    by (simp add: batch_queries_def sample_call_def)
  have ne: "\<forall>tc\<in>set ?tcs. search_queries (call_args tc) \<noteq> []"
    by (simp add: sample_call_def)
  have ok: "\<forall>n<length (batch_queries ?tcs). \<exists>r. nth_call sample_services [] (batch_queries ?tcs) n = Inr r"
    by (simp add: nth_call_def sample_services_def)
  have ids: "call_id ` set ?tcs = {''call_1'', ''call_2''}" by (simp add: sample_call_def)
  from one_turn_per_proposal_id
    [of "[HumanMessage ''why'', AIMessage ?tcs]" ?tcs sample_services "[]", OF _ _ ne ok]
  obtain msgs where
    r: "execute_tools_node sample_services [] [HumanMessage ''why'', AIMessage ?tcs]
       = (Inr msgs, [] @ map Search (batch_queries ?tcs))"
    and l: "length msgs = card (call_id ` set ?tcs)"
    and i: "set (map tool_call_id msgs) = call_id ` set ?tcs"
    by auto
  have r': "execute_tools_node sample_services [] [HumanMessage ''why'', AIMessage ?tcs]
       = (Inr msgs, [Search ''a'', Search ''b'', Search ''c''])"
    using r unfolding qs by simp
  have l': "length msgs = 2" unfolding l ids by simp
  from r' l' i [unfolded ids] show ?thesis by blast
qed

subsection \<open>Repeated queries\<close>

text \<open>
  Claim C8. Let a proposal of the batch, with an id of its own, repeat a query. The pass
  issues every query of the batch, one call per occurrence. The mapping of the turn of the
  proposal has one entry per distinct query of the proposal, fewer entries than the proposal
  has queries, and under a query it holds the output of the call for the last occurrence of
  that query in the proposal.
\<close>

theorem duplicate_queries_keep_last_result:
  assumes state: "state \<noteq> []" "last state = AIMessage (pre @ tc # post)"
    and unique: "call_id tc \<notin> call_id ` (set pre \<union> set post)"
    and qs: "qs = search_queries (call_args tc)"
    and dup: "\<not> distinct qs"
    and issued: "issued = batch_queries (pre @ tc # post)"
    and ok: "\<forall>n<length issued. \<exists>r. nth_call sv w issued n = Inr r"
  shows "\<exists>msgs d. execute_tools_node sv w state = (Inr msgs, w @ map Search issued)
           \<and> issued = batch_queries pre @ qs @ batch_queries post
           \<and> ToolMessage d (call_id tc) \<in> set msgs
           \<and> distinct (map fst d) \<and> set (map fst d) = set qs \<and> length d < length qs
           \<and> (\<forall>k<length qs. (\<forall>j. k < j \<and> j < length qs \<longrightarrow> qs ! j \<noteq> qs ! k) \<longrightarrow>
                 map_option Inr (map_of d (qs ! k))
                   = Some (nth_call sv w issued (length (batch_queries pre) + k)))"
proof -
  let ?tcs = "pre @ tc # post"
  let ?ids = "batch_ids ?tcs"
  let ?off = "length (batch_queries pre)"
  have split: "issued = batch_queries pre @ qs @ batch_queries post"
    by (simp add: issued qs batch_queries_split)
  have ids_split: "?ids = batch_ids pre @ map (\<lambda>q. call_id tc) qs @ batch_ids post"
    by (simp add: qs batch_ids_split)
  have off: "length (batch_ids pre) = ?off" by (rule length_batch_ids)
  have p: "parser_invoke (last state) = ?tcs" using state(2) by simp
  from execute_tools_node_returns [OF state(1) p] ok obtain outs where
    len: "length outs = length issued"
    and outs: "\<forall>n<length issued. nth_call sv w issued n = Inr (outs ! n)"
    and res: "execute_tools_node sv w state =
          (Inr (map (\<lambda>(i, d). ToolMessage d i) (build_outputs_map ?ids outs (map mk_invocation issued))),
           w @ map Search issued)"
    unfolding issued by blast
  let ?rows = "zip ?ids (zip outs (map mk_invocation issued))"
  let ?om = "build_outputs_map ?ids outs (map mk_invocation issued)"
  let ?msgs = "map (\<lambda>(i, d). ToolMessage d i) ?om"
  have lid: "length ?ids = length issued" unfolding issued by (rule length_batch_ids)
  note keys = build_outputs_map_keys [OF lid len]
  from dup have ne: "qs \<noteq> []" by auto
  then have "call_id tc \<in> set ?ids" unfolding ids_split by (cases qs) simp_all
  with keys(2) have "call_id tc \<in> fst ` set ?om" by simp
  then obtain d where d: "(call_id tc, d) \<in> set ?om" by force
  with keys(1) have md: "map_of ?om (call_id tc) = Some d" by simp
  have msg: "ToolMessage d (call_id tc) \<in> set ?msgs" using d by force
  note inner = build_outputs_map_inner [OF lid len d]
  have "{q. (call_id tc, q) \<in> set (zip ?ids issued)} = set qs"
    unfolding issued set_zip_batch using unique by (auto simp: qs)
  with inner(2) have dkeys: "set (map fst d) = set qs" by simp
  have "length d = card (set qs)"
    using inner(1) dkeys distinct_card [of "map fst d"] by simp
  moreover have "card (set qs) \<noteq> length qs" using dup card_distinct by blast
  moreover have "card (set qs) \<le> length qs" by (rule card_length)
  ultimately have short: "length d < length qs" by simp
  have last: "map_option Inr (map_of d (qs ! k)) = Some (nth_call sv w issued (?off + k))"
    if k: "k < length qs" and later: "\<forall>j. k < j \<and> j < length qs \<longrightarrow> qs ! j \<noteq> qs ! k" for k
  proof -
    let ?n = "?off + k"
    have n: "?n < length issued" using k by (simp add: split)
    have idn: "?ids ! ?n = call_id tc"
      unfolding ids_split off [symmetric] using k by (simp add: nth_append)
    have qn: "issued ! ?n = qs ! k"
      unfolding split using k by (rule nth_middle_part)
    have rown: "?rows ! ?n = (call_id tc, outs ! ?n, mk_invocation (qs ! k))"
      using rows_nth [OF lid len n] idn qn by simp
    have nrows: "?n < length ?rows" using n lid len by simp
    have no_later: "\<not> (fst (?rows ! m) = call_id tc
                      \<and> tool_input (snd (snd (?rows ! m))) = tool_input (mk_invocation (qs ! k)))"
      if m: "?n < m" "m < length ?rows" for m
    proof -
      have m': "m < length issued" using m(2) lid len by simp
      have rowm: "?rows ! m = (?ids ! m, outs ! m, mk_invocation (issued ! m))"
        by (rule rows_nth [OF lid len m'])
      show ?thesis
      proof (cases "m < ?off + length qs")
        case True
        define j where "j = m - ?off"
        have j: "k < j" "j < length qs" "m = ?off + j" using m(1) True by (simp_all add: j_def)
        have "issued ! m = qs ! j" unfolding split j(3) using j(2) by (rule nth_middle_part)
        with later j(1,2) rowm show ?thesis by simp
      next
        case False
        then have "?ids ! m \<in> set (batch_ids post)"
          unfolding ids_split using m' lid off
          by (intro nth_last_part) (simp_all add: ids_split)
        with set_batch_ids_subset [of post] unique have "?ids ! m \<noteq> call_id tc" by auto
        with rowm show ?thesis by simp
      qed
    qed
    from last_row_wins [of ?n ?rows "call_id tc" "outs ! ?n" "mk_invocation (qs ! k)" "[]",
        OF nrows rown no_later]
    obtain d' where "map_of (fold outputs_map_set ?rows []) (call_id tc) = Some d'"
      and v: "map_of d' (tool_input (mk_invocation (qs ! k))) = Some (outs ! ?n)"
      by blast
    with md have "d' = d" by (simp add: build_outputs_map_def)
    with v have "map_of d (qs ! k) = Some (outs ! ?n)" by simp
    with outs n show ?thesis by simp
  qed
  show ?thesis
  proof (intro exI [of _ ?msgs] exI [of _ d] conjI allI impI)
    show "execute_tools_node sv w state = (Inr ?msgs, w @ map Search issued)" by (rule res)
    show "issued = batch_queries pre @ qs @ batch_queries post" by (rule split)
    show "ToolMessage d (call_id tc) \<in> set ?msgs" by (rule msg)
    show "distinct (map fst d)" by (rule inner(1))
    show "set (map fst d) = set qs" by (rule dkeys)
    show "length d < length qs" by (rule short)
    show "map_option Inr (map_of d (qs ! k)) = Some (nth_call sv w issued (?off + k))"
      if "k < length qs" "\<forall>j. k < j \<and> j < length qs \<longrightarrow> qs ! j \<noteq> qs ! k" for k
      using that by (rule last)
  qed
qed

theorem duplicate_queries_keep_last_result_witness:
  "\<exists>msgs d. execute_tools_node sample_services []
                [HumanMessage ''why'', AIMessage [sample_call ''call_1'' [''a'', ''b'', ''a'']]]
              = (Inr msgs, [Search ''a'', Search ''b'', Search ''a''])
       \<and> ToolMessage d ''call_1'' \<in> set msgs
       \<and> set (map fst d) = {''a'', ''b''} \<and> length d < 3
       \<and> map_of d ''a'' = Some 2 \<and> map_of d ''b'' = Some 1"
proof -
  let ?tc = "sample_call ''call_1'' [''a'', ''b'', ''a'']"
  let ?qs = "[''a'', ''b'', ''a'']"
  have qs: "?qs = search_queries (call_args ?tc)" by (simp add: sample_call_def)
  have issued: "?qs = batch_queries ([] @ ?tc # [])"
    by (simp add: batch_queries_def sample_call_def)
  have ok: "\<forall>n<length ?qs. \<exists>r. nth_call sample_services [] ?qs n = Inr r"
    by (simp add: nth_call_def sample_services_def All_less_Suc)
  have id: "call_id ?tc = ''call_1''" by (simp add: sample_call_def)
  from duplicate_queries_keep_last_result
    [of "[HumanMessage ''why'', AIMessage [?tc]]" "[]" ?tc "[]" ?qs ?qs sample_services "[]",
     OF _ _ _ qs _ issued ok]
  obtain msgs d where
    res: "execute_tools_node sample_services [] [HumanMessage ''why'', AIMessage [?tc]]
            = (Inr msgs, [] @ map Search ?qs)"
    and msg: "ToolMessage d (call_id ?tc) \<in> set msgs"
    and keys: "set (map fst d) = set ?qs" and short: "length d < length ?qs"
    and last: "\<forall>k<length ?qs. (\<forall>j. k < j \<and> j < length ?qs \<longrightarrow> ?qs ! j \<noteq> ?qs ! k) \<longrightarrow>
                 map_option Inr (map_of d (?qs ! k))
                   = Some (nth_call sample_services [] ?qs (length (batch_queries []) + k))"
    by auto
  have "(\<forall>j. (2::nat) < j \<and> j < length ?qs \<longrightarrow> ?qs ! j \<noteq> ?qs ! 2)" by simp
  with last [rule_format, of 2] have a: "map_of d ''a'' = Some 2"
    by (simp add: nth_call_def sample_services_def batch_queries_def)
  have "(\<forall>j. (1::nat) < j \<and> j < length ?qs \<longrightarrow> ?qs ! j \<noteq> ?qs ! 1)"
    by (auto simp: less_Suc_eq numeral_3_eq_3)
  with last [rule_format, of 1] have b: "map_of d ''b'' = Some 1"
    by (simp add: nth_call_def sample_services_def batch_queries_def)
  from res msg keys short a b show ?thesis
    by (intro exI [of _ msgs] exI [of _ d]) (auto simp: id)
qed

section \<open>Properties of the graph\<close>

lemma create_graph_nodes:
  "map_of (nodes (create_graph sv mi)) ''draft'' = Some (draft_action sv)"
  "map_of (nodes (create_graph sv mi)) ''execute_tools'' = Some (execute_tools_node sv)"
  "map_of (nodes (create_graph sv mi)) ''revise'' = Some (revise_action sv)"
  by (simp_all add: create_graph_def set_entry_point_def add_conditional_edges_def add_edge_def
        add_node_def MessageGraph_init_def)

lemma create_graph_edges:
  "edges (create_graph sv mi) = [(''draft'', ''execute_tools''), (''execute_tools'', ''revise'')]"
  "map fst (branches (create_graph sv mi)) = [''revise'']"
  "map_of (branches (create_graph sv mi)) ''revise'' = Some (event_loop mi)"
  "entry_point (create_graph sv mi) = Some ''draft''"
  by (simp_all add: create_graph_def set_entry_point_def add_conditional_edges_def add_edge_def
        add_node_def MessageGraph_init_def create_event_loop_def)

lemma create_graph_next:
  "next_node (create_graph sv mi) ''draft'' state = ''execute_tools''"
  "next_node (create_graph sv mi) ''execute_tools'' state = ''revise''"
  "next_node (create_graph sv mi) ''revise'' state = event_loop mi state"
  by (simp_all add: next_node_def create_graph_edges)

lemma revise_action_ok:
  "revisor_invoke sv w state = Inr tcs \<Longrightarrow>
   revise_action sv w state = (Inr [AIMessage tcs], w @ [Completion])"
  by (simp add: revise_action_def revise_node_def revisor_def)

lemma draft_action_ok:
  "state \<noteq> [] \<Longrightarrow> first_responder_invoke sv w (map Msg state) = Inr tcs \<Longrightarrow>
   draft_action sv w state = (Inr [AIMessage tcs], w @ [Completion])"
  by (simp add: draft_action_def draft_node_def draft_messages_def first_responder_def last_map)

subsection \<open>A failing search\<close>

lemma run_steps:
  "steps k g (node0, w0, state0) = Some (node, w, state) \<Longrightarrow>
   fst (run (k + m) g node0 w0 state0) = fst (run m g node w state)
   \<and> fst (snd (run (k + m) g node0 w0 state0)) = fst (snd (run m g node w state))"
proof (induction k arbitrary: node0 w0 state0)
  case 0
  then show ?case by simp
next
  case (Suc k)
  from Suc.prems obtain action turns w' where
    a: "map_of (nodes g) node0 = Some action" "action w0 state0 = (Inr turns, w')"
      "next_node g node0 (state0 @ turns) \<noteq> END"
      "steps k g (next_node g node0 (state0 @ turns), w', state0 @ turns) = Some (node, w, state)"
    by (auto split: option.splits prod.splits sum.splits if_splits)
  from Suc.IH [OF a(4)] a(1,2,3) show ?case
    by (auto split: prod.splits)
qed

lemma search_failure_aborts_node:
  assumes "state \<noteq> []" and "last state = AIMessage tcs"
    and "n < length (batch_queries tcs)"
    and "\<forall>m<n. \<exists>r. nth_call sv w (batch_queries tcs) m = Inr r"
    and "nth_call sv w (batch_queries tcs) n = Inl e"
  shows "execute_tools_node sv w state = (Inl e, w @ map Search (take (Suc n) (batch_queries tcs)))"
proof -
  have p: "parser_invoke (last state) = tcs" using assms(2) by simp
  show ?thesis
    using execute_tools_node_raises [OF assms(1) p assms(3) _ assms(5)] assms(4) by blast
qed

text \<open>
  Claim C9. When a search call of a pass fails (call \<open>n\<close>, the calls before it having
  succeeded), the pass ends with the error of that call: it returns no turn, for no proposal
  of the batch, and the calls after \<open>n\<close> are not made. A run of the graph that executes
  this pass ends there with the same error, and so does every invocation that comes to this
  pass, after any number of node executions.
\<close>

theorem search_failure_aborts:
  assumes "state \<noteq> []" and "last state = AIMessage tcs"
    and "n < length (batch_queries tcs)"
    and "\<forall>m<n. \<exists>r. nth_call sv w (batch_queries tcs) m = Inr r"
    and "nth_call sv w (batch_queries tcs) n = Inl e"
  shows "execute_tools_node sv w state = (Inl e, w @ map Search (take (Suc n) (batch_queries tcs)))
       \<and> run (Suc limit) (create_graph sv max_iterations) ''execute_tools'' w state
           = (Inl e, w @ map Search (take (Suc n) (batch_queries tcs)), [''execute_tools''])
       \<and> (steps k (create_graph sv max_iterations) (''draft'', w0, input) = Some (''execute_tools'', w, state)
            \<longrightarrow> fst (invoke (k + Suc limit) (create_graph sv max_iterations) w0 input) = Inl e
              \<and> fst (snd (invoke (k + Suc limit) (create_graph sv max_iterations) w0 input))
                  = w @ map Search (take (Suc n) (batch_queries tcs)))"
proof -
  have node: "execute_tools_node sv w state = (Inl e, w @ map Search (take (Suc n) (batch_queries tcs)))"
    using assms by (rule search_failure_aborts_node)
  then have run: "run (Suc limit) (create_graph sv max_iterations) ''execute_tools'' w state
           = (Inl e, w @ map Search (take (Suc n) (batch_queries tcs)), [''execute_tools''])"
    by (simp add: create_graph_nodes)
  have "fst (invoke (k + Suc limit) (create_graph sv max_iterations) w0 input) = Inl e
      \<and> fst (snd (invoke (k + Suc limit) (create_graph sv max_iterations) w0 input))
          = w @ map Search (take (Suc n) (batch_queries tcs))"
    if "steps k (create_graph sv max_iterations) (''draft'', w0, input) = Some (''execute_tools'', w, state)"
    using run_steps [OF that, of "Suc limit"] run
    by (simp only: invoke_def create_graph_edges option.case fst_conv snd_conv)
  with node run show ?thesis by blast
qed

theorem search_failure_aborts_witness:
  "execute_tools_node failing_services [Completion]
       [HumanMessage ''why'', AIMessage [sample_call ''call_1'' [''a'', ''bad'', ''c'']]]
     = (Inl SearchError, [Completion, Search ''a'', Search ''bad''])
   \<and> fst (invoke 25 (create_graph failing_services 3) [] [HumanMessage ''why'']) = Inl SearchError
   \<and> fst (snd (invoke 25 (create_graph failing_services 3) [] [HumanMessage ''why'']))
       = [Completion, Search ''a'', Search ''bad'']"
proof -
  let ?state = "[HumanMessage ''why'', AIMessage [sample_call ''call_1'' [''a'', ''bad'', ''c'']]]"
  let ?qs = "batch_queries [sample_call ''call_1'' [''a'', ''bad'', ''c'']]"
  have qs: "?qs = [''a'', ''bad'', ''c'']" by (simp add: batch_queries_def sample_call_def)
  have n: "1 < length ?qs" by (simp add: qs)
  have before: "\<forall>m<1. \<exists>r. nth_call failing_services [Completion] ?qs m = Inr r"
    by (simp add: qs nth_call_def failing_services_def)
  have fails: "nth_call failing_services [Completion] ?qs 1 = Inl SearchError"
    by (simp add: qs nth_call_def failing_services_def)
  have reach: "steps 1 (create_graph failing_services 3) (''draft'', [], [HumanMessage ''why''])
                 = Some (''execute_tools'', [Completion], ?state)"
    by (simp add: create_graph_nodes create_graph_next names_not_END draft_action_ok
          failing_services_def)
  from search_failure_aborts
    [of ?state "[sample_call ''call_1'' [''a'', ''bad'', ''c'']]" 1 failing_services "[Completion]"
        SearchError 23 3 1 "[]" "[HumanMessage ''why'']",
     OF _ _ n before fails] reach
  show ?thesis by (simp add: qs)
qed

subsection \<open>DRAFT runs once\<close>

text \<open>
  From the tool pass or from REVISE, a run never executes DRAFT.
\<close>

lemma run_never_draft:
  "node = ''execute_tools'' \<or> node = ''revise'' \<Longrightarrow>
   ''draft'' \<notin> set (snd (snd (run limit (create_graph sv mi) node w state)))"
proof (induction limit arbitrary: node w state)
  case 0
  then show ?case by simp
next
  case (Suc limit)
  from Suc.prems show ?case
  proof
    assume node: "node = ''execute_tools''"
    show ?thesis
    proof (cases "execute_tools_node sv w state")
      case (Pair res w')
      show ?thesis
      proof (cases res)
        case (Inl e)
        with Pair node show ?thesis by (simp add: create_graph_nodes)
      next
        case (Inr turns)
        have "''draft'' \<notin> set (snd (snd (run limit (create_graph sv mi) ''revise'' w' (state @ turns))))"
          by (rule Suc.IH) simp
        with Pair Inr node show ?thesis
          by (auto simp: create_graph_nodes create_graph_next names_not_END split: prod.splits)
      qed
    qed
  next
    assume node: "node = ''revise''"
    show ?thesis
    proof (cases "revise_action sv w state")
      case (Pair res w')
      show ?thesis
      proof (cases res)
        case (Inl e)
        with Pair node show ?thesis by (simp add: create_graph_nodes)
      next
        case (Inr turns)
        have "''draft'' \<notin> set (snd (snd (run limit (create_graph sv mi) ''execute_tools'' w' (state @ turns))))"
          by (rule Suc.IH) simp
        with Pair Inr node event_loop_cases [of mi "state @ turns"] show ?thesis
          by (auto simp: create_graph_nodes create_graph_next split: prod.splits)
      qed
    qed
  qed
qed

lemma run_draft_once:
  "count_list (snd (snd (run (Suc limit) (create_graph sv mi) ''draft'' w state))) ''draft'' = 1"
proof (cases "draft_action sv w state")
  case (Pair res w')
  show ?thesis
  proof (cases res)
    case (Inl e)
    with Pair show ?thesis by (simp add: create_graph_nodes)
  next
    case (Inr turns)
    have "''draft'' \<notin> set (snd (snd (run limit (create_graph sv mi) ''execute_tools'' w' (state @ turns))))"
      by (rule run_never_draft) simp
    then have "count_list (snd (snd (run limit (create_graph sv mi) ''execute_tools'' w' (state @ turns)))) ''draft'' = 0"
      by (simp add: count_list_0_iff)
    with Pair Inr show ?thesis
      by (auto simp: create_graph_nodes create_graph_next names_not_END split: prod.splits)
  qed
qed

text \<open>
  Claim C10. The transition function after REVISE never returns \<open>draft\<close>: it returns \<open>END\<close>
  or \<open>execute_tools\<close>. The only edge of the graph at \<open>draft\<close> is the unconditional edge to
  \<open>execute_tools\<close>, there is no conditional edge out of \<open>draft\<close>, and \<open>draft\<close> is the entry
  point. So every run, however it ends, executes DRAFT exactly once.
\<close>

theorem draft_executes_once:
  "event_loop max_iterations state \<noteq> ''draft''
   \<and> (event_loop max_iterations state = END \<or> event_loop max_iterations state = ''execute_tools'')
   \<and> filter (\<lambda>e. fst e = ''draft'' \<or> snd e = ''draft'') (edges (create_graph sv max_iterations))
        = [(''draft'', ''execute_tools'')]
   \<and> map_of (branches (create_graph sv max_iterations)) ''draft'' = None
   \<and> entry_point (create_graph sv max_iterations) = Some ''draft''
   \<and> (0 < limit \<longrightarrow>
        count_list (snd (snd (invoke limit (create_graph sv max_iterations) w input))) ''draft'' = 1)"
proof -
  have "count_list (snd (snd (invoke limit (create_graph sv max_iterations) w input))) ''draft'' = 1"
    if "0 < limit"
  proof -
    from that obtain l where "limit = Suc l" by (cases limit) auto
    then show ?thesis by (simp only: invoke_def create_graph_edges option.case run_draft_once)
  qed
  moreover have "map_of (branches (create_graph sv max_iterations)) ''draft'' = None"
    by (simp add: create_graph_def set_entry_point_def add_conditional_edges_def add_edge_def
        add_node_def MessageGraph_init_def)
  ultimately show ?thesis
    by (simp add: create_graph_edges event_loop_def END_def)
qed

theorem draft_executes_once_witness:
  "count_list (snd (snd (invoke 3 (create_graph sample_services 0) [] [HumanMessage ''why'']))) ''draft'' = 1"
proof -
  have "0 < (3::nat)" by simp
  with draft_executes_once [of 0 "[]" sample_services 3 "[]" "[HumanMessage ''why'']"]
  show ?thesis by blast
qed

subsection \<open>The number of revise cycles\<close>








subsection \<open>A proposal without queries\<close>

lemma silent_loop:
  assumes rv: "\<forall>w ms. \<exists>tc. revisor_invoke sv w ms = Inr [tc] \<and> search_queries (call_args tc) = []"
    and mi: "0 \<le> mi"
  shows "(state \<noteq> [] \<longrightarrow> last state = AIMessage [tc] \<longrightarrow> search_queries (call_args tc) = [] \<longrightarrow>
            count_tool_visits state = 0 \<longrightarrow>
            fst (run limit (create_graph sv mi) ''execute_tools'' w state) = Inl GraphRecursionError)
       \<and> (count_tool_visits state = 0 \<longrightarrow>
            fst (run limit (create_graph sv mi) ''revise'' w state) = Inl GraphRecursionError)"
proof (induction limit arbitrary: state tc w)
  case 0
  show ?case by simp
next
  case (Suc limit)
  have pass: "fst (run (Suc limit) (create_graph sv mi) ''execute_tools'' w state) = Inl GraphRecursionError"
    if "state \<noteq> []" "last state = AIMessage [tc]" "search_queries (call_args tc) = []"
      "count_tool_visits state = 0"
  proof -
    have "execute_tools_node sv w state = (Inr [], w)"
      using that(1,2,3) by (rule no_queries_pass)
    moreover have "fst (run limit (create_graph sv mi) ''revise'' w state) = Inl GraphRecursionError"
      using Suc.IH [of state tc w] that(4) by simp
    ultimately show ?thesis
      by (auto simp: create_graph_nodes create_graph_next names_not_END split: prod.splits)
  qed
  have revise: "fst (run (Suc limit) (create_graph sv mi) ''revise'' w state) = Inl GraphRecursionError"
    if "count_tool_visits state = 0"
  proof -
    from rv obtain tc' where tc': "revisor_invoke sv w state = Inr [tc']"
      and empty: "search_queries (call_args tc') = []" by blast
    let ?s = "state @ [AIMessage [tc']]"
    have cnt: "count_tool_visits ?s = 0" using that by (simp add: count_tool_visits_def)
    with mi have go: "event_loop mi ?s = ''execute_tools''" by (simp add: event_loop_def)
    have "fst (run limit (create_graph sv mi) ''execute_tools'' (w @ [Completion]) ?s)
            = Inl GraphRecursionError"
      using Suc.IH [of ?s tc' "w @ [Completion]"] empty cnt by simp
    then show ?thesis
      by (auto simp: create_graph_nodes create_graph_next names_not_END revise_action_ok [OF tc'] go
            split: prod.splits)
  qed
  from pass revise show ?case by blast
qed

lemma silent_invoke:
  assumes fr: "\<forall>w ms. \<exists>tc. first_responder_invoke sv w ms = Inr [tc] \<and> search_queries (call_args tc) = []"
    and rv: "\<forall>w ms. \<exists>tc. revisor_invoke sv w ms = Inr [tc] \<and> search_queries (call_args tc) = []"
    and mi: "0 \<le> max_iterations"
    and input: "input \<noteq> []" "filter isinstance_ToolMessage input = []"
  shows "fst (invoke limit (create_graph sv max_iterations) w input) = Inl GraphRecursionError"
proof (cases limit)
  case 0
  then show ?thesis by (simp add: invoke_def create_graph_edges)
next
  case (Suc l)
  from fr obtain tc where tc: "first_responder_invoke sv w (map Msg input) = Inr [tc]"
    and empty: "search_queries (call_args tc) = []" by blast
  let ?s = "input @ [AIMessage [tc]]"
  have cnt: "count_tool_visits ?s = 0" using input(2) by (simp add: count_tool_visits_length)
  have "fst (run l (create_graph sv max_iterations) ''execute_tools'' (w @ [Completion]) ?s)
          = Inl GraphRecursionError"
    using silent_loop [OF rv mi, of ?s tc l "w @ [Completion]"] empty cnt by simp
  then show ?thesis
    unfolding Suc
    by (auto simp: invoke_def create_graph_edges create_graph_nodes create_graph_next names_not_END
          draft_action_ok [OF input(1) tc] split: prod.splits)
qed

lemma silent_services_ok:
  "\<forall>w ms. \<exists>tc. first_responder_invoke silent_services w ms = Inr [tc] \<and> search_queries (call_args tc) = []"
  "\<forall>w ms. \<exists>tc. revisor_invoke silent_services w ms = Inr [tc] \<and> search_queries (call_args tc) = []"
  by (simp_all add: silent_services_def sample_call_def)

text \<open>
  Claim C2. The claim is that the pass of a proposal without queries still appends one
  tool-result turn, with an empty mapping, so that the loop advances. The pass returns no
  turn: the number of tool-result turns stays 0, the transition function never comes to its
  threshold, and when the completions keep coming without queries the invocation ends with
  \<open>GraphRecursionError\<close>, under the limit of 25 as under every other.
\<close>

theorem no_queries_no_turn:
  "execute_tools_node silent_services [Completion]
       [HumanMessage ''why'', AIMessage [sample_call ''call_1'' []]]
     = (Inr [], [Completion])
   \<and> length (filter isinstance_ToolMessage
               ([HumanMessage ''why'', AIMessage [sample_call ''call_1'' []]] @ [])) = 0
   \<and> fst (invoke 25 (create_graph silent_services 3) [] [HumanMessage ''why'']) = Inl GraphRecursionError
   \<and> (\<forall>limit. fst (invoke limit (create_graph silent_services 3) [] [HumanMessage ''why''])
         = Inl GraphRecursionError)"
proof -
  have 1: "execute_tools_node silent_services [Completion]
       [HumanMessage ''why'', AIMessage [sample_call ''call_1'' []]] = (Inr [], [Completion])"
    using no_queries_pass
      [of "[HumanMessage ''why'', AIMessage [sample_call ''call_1'' []]]" "sample_call ''call_1'' []"
          silent_services "[Completion]"]
    by (simp add: sample_call_def)
  have 2: "fst (invoke limit (create_graph silent_services 3) [] [HumanMessage ''why''])
         = Inl GraphRecursionError" for limit
    by (rule silent_invoke [OF silent_services_ok]) simp_all
  from 1 2 show ?thesis by simp
qed

section \<open>Properties of the settings update\<close>

text \<open>
  Claim C7. For every triple of optional overrides, \<^verbatim>\<open>update_settings\<close> sets each of
  \<open>MAX_ITERATIONS\<close>, \<open>MODEL_NAME\<close> and \<open>MAX_RESULTS\<close> to its argument when the argument is
  not \<open>None\<close> and leaves it as it is otherwise; every other field, the two API keys among
  them, is unchanged.
\<close>

theorem update_settings_frame:
  "MAX_ITERATIONS (update_settings max_iterations model max_results settings)
      = (case max_iterations of None \<Rightarrow> MAX_ITERATIONS settings | Some v \<Rightarrow> v)
   \<and> MODEL_NAME (update_settings max_iterations model max_results settings)
      = (case model of None \<Rightarrow> MODEL_NAME settings | Some v \<Rightarrow> v)
   \<and> MAX_RESULTS (update_settings max_iterations model max_results settings)
      = (case max_results of None \<Rightarrow> MAX_RESULTS settings | Some v \<Rightarrow> v)
   \<and> OPENAI_API_KEY (update_settings max_iterations model max_results settings) = OPENAI_API_KEY settings
   \<and> TAVILY_API_KEY (update_settings max_iterations model max_results settings) = TAVILY_API_KEY settings
   \<and> LANGCHAIN_API_KEY (update_settings max_iterations model max_results settings) = LANGCHAIN_API_KEY settings
   \<and> LANGCHAIN_TRACING_V2 (update_settings max_iterations model max_results settings) = LANGCHAIN_TRACING_V2 settings
   \<and> LANGCHAIN_PROJECT (update_settings max_iterations model max_results settings) = LANGCHAIN_PROJECT settings
   \<and> update_settings None None None settings = settings"
  by (simp add: update_settings_def split: option.splits)

section \<open>Properties of reference formatting\<close>

lemmas reference_eval =
  format_reference_def parse_reference_def strip_def isspace_def py_in_def py_get_def py_str_def
  str_int_def str_nat.simps digit_char_def literal_eval_flat_def display_def dict_items.simps
  set_items.simps emit_def is_digit_def is_plain_def number_value_def

text \<open>
  What holds of the formatting for every \<^verbatim>\<open>ast.literal_eval\<close>: a string that does not start
  with a brace, and a string on which \<^verbatim>\<open>ast.literal_eval\<close> raises, are rendered as they are;
  a string that evaluates to a dict is rendered; a string that evaluates to a set is not.
\<close>

lemma format_reference_plain:
  "\<not> startswith (strip s) ''{'' \<Longrightarrow>
   format_reference py (PyStr s) index = Inr (''['' @ str_int index @ ''] '' @ s)"
  by (simp add: format_reference_def parse_reference_def py_in_def py_get_def py_str_def)

lemma format_reference_fallback:
  "literal_eval py s = Inl e \<Longrightarrow>
   format_reference py (PyStr s) index = Inr (''['' @ str_int index @ ''] '' @ s)"
  by (simp add: format_reference_def parse_reference_def py_in_def py_get_def py_str_def)

lemma format_reference_dict:
  "startswith (strip s) ''{'' \<Longrightarrow> literal_eval py s = Inr (PyDict items) \<Longrightarrow>
   \<exists>rendered. format_reference py (PyStr s) index = Inr rendered"
  by (simp add: format_reference_def parse_reference_def py_in_def py_get_def Let_def
        split: bool.splits)

lemma format_reference_not_dict:
  "startswith (strip s) ''{'' \<Longrightarrow> literal_eval py s = Inr (PySet xs) \<Longrightarrow>
   format_reference py (PyStr s) index = Inl AttributeError"
  by (simp add: format_reference_def parse_reference_def py_in_def py_get_def Let_def
        split: bool.splits)

text \<open>
  The two examples of the specification.
\<close>

lemma format_reference_examples:
  "format_reference (py\<lparr>literal_eval := literal_eval_flat\<rparr>)
     (PyStr ''{'Author': 'A', 'Title': 'T', 'URL': 'u', 'Date': 'd'}'') 1 = Inr ''[1] A - T - u (d)''"
  "format_reference py (PyStr ''some note'') 1 = Inr ''[1] some note''"
  by (simp_all add: reference_eval)

text \<open>
  Claim C6. The claim is that formatting a reference string never raises. On the string
  \<^verbatim>\<open>{2020}\<close>, which Python reads as a set, \<^verbatim>\<open>parse_reference\<close> returns the set, and
  \<^verbatim>\<open>format_reference\<close> then raises \<open>AttributeError\<close>, since a set has no \<^verbatim>\<open>get\<close>.
\<close>

theorem format_reference_raises_on_set:
  "literal_eval_flat ''{2020}'' = Inr (PySet [PyInt 2020])
   \<and> parse_reference (py\<lparr>literal_eval := literal_eval_flat\<rparr>) (PyStr ''{2020}'') = PySet [PyInt 2020]
   \<and> format_reference (py\<lparr>literal_eval := literal_eval_flat\<rparr>) (PyStr ''{2020}'') 1 = Inl AttributeError"
  by (simp add: reference_eval)

end
